theory Spec2Isabelle
  imports Main "HOL-Library.Word"
begin

section \<open>The fixed-capacity ring buffer of ringbuffer.hpp\<close>

text \<open>
  The class template \<open>ringbuffer<N, T>\<close> keeps a \<open>std::array<T, N>\<close>, two constant
  pointers \<open>first\<close> and \<open>last\<close> to its first and last slot, a write and a read
  pointer and the count \<open>available\<close> of buffered elements.

  Modelling choices:
  \<^item> \<open>std::size_t\<close> is a 64-bit word, so \<open>+\<close> and \<open>-\<close> wrap as in C++;
  \<^item> a pointer into the storage is its offset from \<open>buff.data()\<close>, a natural number
    (\<open>first\<close> is offset 0, \<open>last\<close> is offset \<open>N - 1\<close>);
  \<^item> the template parameter \<open>N\<close> is an explicit argument of every operation;
  \<^item> an operation that returns a value returns it together with the buffer
    afterwards; a thrown \<open>std::out_of_range\<close> is the left summand and carries the
    message of the \<open>throw\<close>;
  \<^item> constructors and destructors of \<open>T\<close> do not throw, and a destructor leaves the
    slot's bytes as they are;
  \<^item> the cursors are dereferenced with \<open>!\<close>; the operations keep them inside the
    storage (lemmas \<open>wrapfront_in_storage\<close>, \<open>emplace_live\<close>,
    \<open>pop_keeps_invariant\<close>, \<open>erase_keeps_invariant\<close>), so no such read leaves
    the array;
  \<^item> \<open>wrapfront\<close>, the body of \<open>temporary_copy\<close> and the loops of the bulk read and
    of \<open>erase\<close> have the same text in atomic_ringbuffer.hpp (up to \<open>load\<close> and
    \<open>store\<close> on the atomics); they are defined once, for every record that
    extends the buffer's fields.
\<close>

type_synonym size_t = "64 word"

datatype failure =
    out_of_range string
  | storage_overrun

record 'a ringbuffer =
  buff :: "'a list"
  writepos :: nat
  readpos :: nat
  available :: size_t

definition first :: nat where
  "first = 0"

definition last_ptr :: "size_t \<Rightarrow> nat" where
  "last_ptr N = unat N - 1"

text \<open>
  \<open>wrapfront\<close> (ringbuffer.hpp lines 94-104). The reduction of \<open>n\<close> and the
  difference \<open>n - 1 - (last - p)\<close> are computed in \<open>size_t\<close>; the pointer
  comparison and the pointer sums are computed on offsets.
\<close>

definition wrapfront :: "size_t \<Rightarrow> nat \<Rightarrow> size_t \<Rightarrow> nat" where
  "wrapfront N p n =
     (let n = (if n > N then n mod N else n) in
      if p + unat n > last_ptr N
      then first + unat (n - 1 - of_nat (last_ptr N - p))
      else p + unat n)"

text \<open>
  The iterator ranges of \<open>temporary_copy\<close>: \<open>buffcopy.insert (std::begin (buffcopy), b, e)\<close>
  puts the elements of \<open>[b, e)\<close> in front of what \<open>buffcopy\<close> already holds. A
  range that leaves the array is undefined behaviour in C++; the model keeps it as
  the outcome \<open>None\<close>.
\<close>

definition insert_at_begin :: "'a list \<Rightarrow> 'a list \<Rightarrow> nat \<Rightarrow> nat \<Rightarrow> 'a list option" where
  "insert_at_begin buffcopy xs b e =
     (if b \<le> e \<and> e \<le> length xs
      then Some (take (e - b) (drop b xs) @ buffcopy)
      else None)"

text \<open>\<open>temporary_copy\<close> (ringbuffer.hpp lines 109-149).\<close>

definition temporary_copy ::
  "size_t \<Rightarrow> size_t \<Rightarrow> ('a, 'z) ringbuffer_scheme \<Rightarrow> 'a list option" where
  "temporary_copy N n s =
     (let n = min n (available s);
          buffcopy = []
      in if readpos s + unat n \<le> last_ptr N
         then
           (let buff_begin = 0 + (readpos s - first);
                buff_end = buff_begin + unat n
            in insert_at_begin buffcopy (buff s) buff_begin buff_end)
         else
           (let m = last_ptr N - readpos s;
                first_buff_begin = 0 + (readpos s - first);
                first_buff_end = first_buff_begin + (m + 1);
                second_buff_begin = 0;
                second_buff_end = second_buff_begin + unat (n - of_nat m + 1)
            in case insert_at_begin buffcopy (buff s) first_buff_begin first_buff_end of
                 None \<Rightarrow> None
               | Some buffcopy1 \<Rightarrow>
                   insert_at_begin buffcopy1 (buff s) second_buff_begin second_buff_end))"

text \<open>The constructor (lines 167-174); \<open>d\<close> is the default-constructed \<open>T\<close>.\<close>

definition ringbuffer_init :: "size_t \<Rightarrow> 'a \<Rightarrow> 'a ringbuffer" where
  "ringbuffer_init N d =
     \<lparr>buff = replicate (unat N) d, writepos = first, readpos = first, available = 0\<rparr>"

text \<open>\<open>size\<close> (lines 184-187) and \<open>capacity\<close> (lines 195-198).\<close>

definition size_rb :: "'a ringbuffer \<Rightarrow> size_t \<times> 'a ringbuffer" where
  "size_rb s = (available s, s)"

definition capacity :: "size_t \<Rightarrow> 'a ringbuffer \<Rightarrow> size_t \<times> 'a ringbuffer" where
  "capacity N s = (N - available s, s)"

text \<open>\<open>emplace\<close> (lines 216-223); \<open>x\<close> is the value \<open>T(args...)\<close>.\<close>

definition emplace :: "size_t \<Rightarrow> 'a \<Rightarrow> 'a ringbuffer \<Rightarrow> 'a ringbuffer" where
  "emplace N x s =
     (if available s < N
      then
        (let s1 = s\<lparr>buff := (buff s)[writepos s := x]\<rparr>;
             s2 = s1\<lparr>writepos := wrapfront N (writepos s1) 1\<rparr>
         in s2\<lparr>available := available s2 + 1\<rparr>)
      else s)"

text \<open>\<open>pop\<close> (lines 247-254).\<close>

definition pop :: "size_t \<Rightarrow> 'a ringbuffer \<Rightarrow> 'a ringbuffer" where
  "pop N s =
     (if available s \<noteq> 0
      then
        (let s1 = s\<lparr>readpos := wrapfront N (readpos s) 1\<rparr>
         in s1\<lparr>available := available s1 - 1\<rparr>)
      else s)"

text \<open>\<open>front\<close> (lines 269-277).\<close>

definition front :: "'a ringbuffer \<Rightarrow> (failure + 'a) \<times> 'a ringbuffer" where
  "front s =
     (if available s \<noteq> 0
      then (Inr (buff s ! readpos s), s)
      else (Inl (out_of_range ''cannot access first of empty ringbuffer''), s))"

text \<open>\<open>read\<close> of one element (lines 292-302).\<close>

definition read :: "size_t \<Rightarrow> 'a ringbuffer \<Rightarrow> (failure + 'a) \<times> 'a ringbuffer" where
  "read N s =
     (if available s \<noteq> 0
      then
        (let s1 = s\<lparr>available := available s - 1\<rparr>;
             deref = readpos s1;
             s2 = s1\<lparr>readpos := wrapfront N (readpos s1) 1\<rparr>
         in (Inr (buff s2 ! deref), s2))
      else (Inl (out_of_range ''invalid read on empty ringbuffer''), s))"

text \<open>
  The loop of the bulk read, \<open>while (available-- > cap) { ... }\<close> (lines 331-335):
  the test compares the value \<open>available\<close> had before the decrement, and the
  decrement happens whether or not the test succeeds.
\<close>

function read_loop ::
  "size_t \<Rightarrow> size_t \<Rightarrow> ('a, 'z) ringbuffer_scheme \<Rightarrow> 'a list
     \<Rightarrow> 'a list \<times> ('a, 'z) ringbuffer_scheme" where
  "read_loop N cap s result =
     (if available s > cap
      then
        (let s1 = s\<lparr>available := available s - 1\<rparr>;
             deref = readpos s1;
             s2 = s1\<lparr>readpos := wrapfront N (readpos s1) 1\<rparr>
         in read_loop N cap s2 (result @ [buff s2 ! deref]))
      else (result, s\<lparr>available := available s - 1\<rparr>))"
  by pat_completeness auto
termination
proof (relation "measure (\<lambda>(N, cap, s, result). unat (available s))")
  show "wf (measure (\<lambda>(N, cap, s, result). unat (available s)))"
    by simp
next
  fix N cap :: size_t and s :: "('a, 'z) ringbuffer_scheme" and result :: "'a list"
    and x xa xb
  assume lt: "cap < available s"
    and x: "x = s\<lparr>available := available s - 1\<rparr>"
    and xb: "xb = x\<lparr>readpos := wrapfront N (readpos x) 1\<rparr>"
  from lt have "available s \<noteq> 0"
    by auto
  then have "unat (available s - 1) < unat (available s)"
    by (simp add: unat_minus_one unat_gt_0)
  with x xb
  show "((N, cap, xb, result @ [buff xb ! xa]), N, cap, s, result)
          \<in> measure (\<lambda>(N, cap, s, result). unat (available s))"
    by simp
qed

declare read_loop.simps [simp del]

text \<open>
  \<open>read (std::size_t n)\<close> (lines 325-341 and 361-376: the two overloads differ
  only in the call \<open>result.reserve (n)\<close>, which changes no value).
\<close>

definition read_n ::
  "size_t \<Rightarrow> size_t \<Rightarrow> 'a ringbuffer \<Rightarrow> (failure + 'a list) \<times> 'a ringbuffer" where
  "read_n N n s =
     (if n \<le> available s
      then
        (let cap = available s - n;
             (result, s') = read_loop N cap s []
         in (Inr result, s'))
      else (Inl (out_of_range ''cannot read more than available elements''), s))"

text \<open>
  \<open>safe_read (std::size_t n)\<close> (lines 405-422 and 448-464). The elements of the
  temporary copy are appended to \<open>result\<close> one by one, in the copy's order. A
  copy whose iterator range leaves the array is the outcome \<open>storage_overrun\<close>,
  with the buffer as it was before the call.
\<close>

definition safe_read ::
  "size_t \<Rightarrow> size_t \<Rightarrow> 'a ringbuffer \<Rightarrow> (failure + 'a list) \<times> 'a ringbuffer" where
  "safe_read N n s =
     (if n \<le> available s
      then
        (case temporary_copy N n s of
           None \<Rightarrow> (Inl storage_overrun, s)
         | Some tmpcopy \<Rightarrow>
             (let result = [] @ tmpcopy;
                  s1 = s\<lparr>available := available s - n\<rparr>;
                  s2 = s1\<lparr>readpos := wrapfront N (readpos s1) n\<rparr>
              in (Inr result, s2)))
      else (Inl (out_of_range ''cannot read more than available elements''), s))"

text \<open>\<open>read_all\<close> (lines 479-482) and \<open>safe_read_all\<close> (lines 503-506).\<close>

definition read_all :: "size_t \<Rightarrow> 'a ringbuffer \<Rightarrow> (failure + 'a list) \<times> 'a ringbuffer" where
  "read_all N s = read_n N (available s) s"

definition safe_read_all ::
  "size_t \<Rightarrow> 'a ringbuffer \<Rightarrow> (failure + 'a list) \<times> 'a ringbuffer" where
  "safe_read_all N s = safe_read N (available s) s"

text \<open>
  \<open>erase\<close> (lines 530-538): the loop \<open>while (m--)\<close> runs on a local counter.
\<close>

function erase_loop ::
  "size_t \<Rightarrow> size_t \<Rightarrow> ('a, 'z) ringbuffer_scheme \<Rightarrow> ('a, 'z) ringbuffer_scheme" where
  "erase_loop N m s =
     (if m \<noteq> 0
      then
        (let s1 = s\<lparr>readpos := wrapfront N (readpos s) 1\<rparr>
         in erase_loop N (m - 1) (s1\<lparr>available := available s1 - 1\<rparr>))
      else s)"
  by pat_completeness auto
termination
  by (relation "measure (\<lambda>(N, m, s). unat m)") (simp_all add: unat_minus_one unat_gt_0)

declare erase_loop.simps [simp del]

definition erase :: "size_t \<Rightarrow> size_t \<Rightarrow> 'a ringbuffer \<Rightarrow> 'a ringbuffer" where
  "erase N n s = (let m = min n (available s) in erase_loop N m s)"

text \<open>\<open>clear\<close> (lines 561-564).\<close>

definition clear :: "size_t \<Rightarrow> 'a ringbuffer \<Rightarrow> 'a ringbuffer" where
  "clear N s = erase N (available s) s"


section \<open>The concurrent variant of atomic_ringbuffer.hpp, called by one thread\<close>

text \<open>
  \<open>rw_mutex\<close> (atomic_ringbuffer.hpp lines 79-159) holds a \<open>std::mutex\<close> and an
  atomic count of readers. The model follows one calling thread: the mutex is the
  flag "held", and a call that cannot return while the mutex stays held has no
  result (\<open>None\<close>), because no other thread exists that could release it.
  \<open>std::mutex\<close> is not recursive: \<open>lock\<close> on a mutex that the calling thread
  already owns does not come back. \<open>mutex_lock\<close> and \<open>mutex_unlock\<close> stand for
  \<open>std::mutex::lock\<close> and \<open>std::mutex::unlock\<close> of the C++ standard library.
\<close>

record rw_mutex =
  mut :: bool
  readers :: size_t

definition mutex_lock :: "bool \<Rightarrow> bool option" where
  "mutex_lock held = (if held then None else Some True)"

definition mutex_unlock :: "bool \<Rightarrow> bool" where
  "mutex_unlock held = False"

text \<open>\<open>read_lock\<close> (lines 119-124) and \<open>read_unlock\<close> (lines 126-130).\<close>

definition read_lock :: "rw_mutex \<Rightarrow> rw_mutex option" where
  "read_lock m =
     (case mutex_lock (mut m) of
        None \<Rightarrow> None
      | Some held \<Rightarrow>
          (let m1 = m\<lparr>mut := held\<rparr>;
               m2 = m1\<lparr>readers := readers m1 + 1\<rparr>
           in Some (m2\<lparr>mut := mutex_unlock (mut m2)\<rparr>)))"

definition read_unlock :: "rw_mutex \<Rightarrow> rw_mutex" where
  "read_unlock m = (if readers m \<noteq> 0 then m\<lparr>readers := readers m - 1\<rparr> else m)"

text \<open>
  \<open>write_lock\<close> (lines 132-136) spins: \<open>while (!mut.try_lock()) continue;\<close>.
  \<open>try_lock\<close> fails, and changes nothing, exactly when the mutex is held.
\<close>

partial_function (option) write_lock :: "rw_mutex \<Rightarrow> rw_mutex option" where
  "write_lock m = (if mut m then write_lock m else Some (m\<lparr>mut := True\<rparr>))"

definition write_unlock :: "rw_mutex \<Rightarrow> rw_mutex" where
  "write_unlock m = m\<lparr>mut := mutex_unlock (mut m)\<rparr>"

record 'a atomic_ringbuffer = "'a ringbuffer" +
  rwlock :: rw_mutex

text \<open>The constructor (lines 262-269); the lock starts free, with no reader.\<close>

definition atomic_ringbuffer_init :: "size_t \<Rightarrow> 'a \<Rightarrow> 'a atomic_ringbuffer" where
  "atomic_ringbuffer_init N d =
     \<lparr>buff = replicate (unat N) d, writepos = first, readpos = first, available = 0,
      rwlock = \<lparr>mut = False, readers = 0\<rparr>\<rparr>"

text \<open>
  \<open>temporary_copy\<close> (lines 201-244): the reader guard \<open>rwlock.reader ()\<close> is taken
  first and released when the function returns.
\<close>

definition atomic_temporary_copy ::
  "size_t \<Rightarrow> size_t \<Rightarrow> 'a atomic_ringbuffer \<Rightarrow> ('a list option \<times> 'a atomic_ringbuffer) option" where
  "atomic_temporary_copy N n s =
     (case read_lock (rwlock s) of
        None \<Rightarrow> None
      | Some l \<Rightarrow>
          (let s0 = s\<lparr>rwlock := l\<rparr>;
               buffcopy = temporary_copy N n s0
           in Some (buffcopy, s0\<lparr>rwlock := read_unlock (rwlock s0)\<rparr>)))"

text \<open>\<open>size\<close> (lines 279-282) and \<open>capacity\<close> (lines 290-293) take no lock.\<close>

definition atomic_size :: "'a atomic_ringbuffer \<Rightarrow> size_t \<times> 'a atomic_ringbuffer" where
  "atomic_size s = (available s, s)"

definition atomic_capacity ::
  "size_t \<Rightarrow> 'a atomic_ringbuffer \<Rightarrow> size_t \<times> 'a atomic_ringbuffer" where
  "atomic_capacity N s = (N - available s, s)"

text \<open>
  \<open>emplace\<close> (lines 311-319). The writer guard is released at the end of the
  function body, here and in every operation below that takes it.
\<close>

definition atomic_emplace ::
  "size_t \<Rightarrow> 'a \<Rightarrow> 'a atomic_ringbuffer \<Rightarrow> 'a atomic_ringbuffer option" where
  "atomic_emplace N x s =
     (case write_lock (rwlock s) of
        None \<Rightarrow> None
      | Some l \<Rightarrow>
          (let s0 = s\<lparr>rwlock := l\<rparr>;
               s' =
                 (if available s0 < N
                  then
                    (let s1 = s0\<lparr>buff := (buff s0)[writepos s0 := x]\<rparr>;
                         s2 = s1\<lparr>writepos := wrapfront N (writepos s1) 1\<rparr>
                     in s2\<lparr>available := available s2 + 1\<rparr>)
                  else s0)
           in Some (s'\<lparr>rwlock := write_unlock (rwlock s')\<rparr>)))"

text \<open>\<open>pop\<close> (lines 343-351).\<close>

definition atomic_pop :: "size_t \<Rightarrow> 'a atomic_ringbuffer \<Rightarrow> 'a atomic_ringbuffer option" where
  "atomic_pop N s =
     (case write_lock (rwlock s) of
        None \<Rightarrow> None
      | Some l \<Rightarrow>
          (let s0 = s\<lparr>rwlock := l\<rparr>;
               s' =
                 (if available s0 \<noteq> 0
                  then
                    (let s1 = s0\<lparr>readpos := wrapfront N (readpos s0) 1\<rparr>
                     in s1\<lparr>available := available s1 - 1\<rparr>)
                  else s0)
           in Some (s'\<lparr>rwlock := write_unlock (rwlock s')\<rparr>)))"

text \<open>\<open>front\<close> (lines 366-375), under the reader guard.\<close>

definition atomic_front ::
  "'a atomic_ringbuffer \<Rightarrow> ((failure + 'a) \<times> 'a atomic_ringbuffer) option" where
  "atomic_front s =
     (case read_lock (rwlock s) of
        None \<Rightarrow> None
      | Some l \<Rightarrow>
          (let s0 = s\<lparr>rwlock := l\<rparr>;
               r =
                 (if available s0 \<noteq> 0
                  then Inr (buff s0 ! readpos s0)
                  else Inl (out_of_range ''cannot access first of empty ringbuffer''))
           in Some (r, s0\<lparr>rwlock := read_unlock (rwlock s0)\<rparr>)))"

text \<open>\<open>read\<close> of one element (lines 390-401).\<close>

definition atomic_read ::
  "size_t \<Rightarrow> 'a atomic_ringbuffer \<Rightarrow> ((failure + 'a) \<times> 'a atomic_ringbuffer) option" where
  "atomic_read N s =
     (case write_lock (rwlock s) of
        None \<Rightarrow> None
      | Some l \<Rightarrow>
          (let s0 = s\<lparr>rwlock := l\<rparr>;
               (r, s') =
                 (if available s0 \<noteq> 0
                  then
                    (let s1 = s0\<lparr>available := available s0 - 1\<rparr>;
                         deref = readpos s1;
                         s2 = s1\<lparr>readpos := wrapfront N (readpos s1) 1\<rparr>
                     in (Inr (buff s2 ! deref), s2))
                  else (Inl (out_of_range ''invalid read on empty ringbuffer''), s0))
           in Some (r, s'\<lparr>rwlock := write_unlock (rwlock s')\<rparr>)))"

text \<open>\<open>read (std::size_t n)\<close> (lines 424-441 and 461-477).\<close>

definition atomic_read_n ::
  "size_t \<Rightarrow> size_t \<Rightarrow> 'a atomic_ringbuffer
     \<Rightarrow> ((failure + 'a list) \<times> 'a atomic_ringbuffer) option" where
  "atomic_read_n N n s =
     (case write_lock (rwlock s) of
        None \<Rightarrow> None
      | Some l \<Rightarrow>
          (let s0 = s\<lparr>rwlock := l\<rparr>;
               (r, s') =
                 (if n \<le> available s0
                  then
                    (let cap = available s0 - n;
                         (result, s1) = read_loop N cap s0 []
                     in (Inr result, s1))
                  else (Inl (out_of_range ''cannot read more than available elements''), s0))
           in Some (r, s'\<lparr>rwlock := write_unlock (rwlock s')\<rparr>)))"

text \<open>
  \<open>safe_read (std::size_t n)\<close> (lines 506-524 and 550-567): the writer guard is
  held while \<open>temporary_copy\<close> asks for the reader guard of the same lock.
\<close>

definition atomic_safe_read ::
  "size_t \<Rightarrow> size_t \<Rightarrow> 'a atomic_ringbuffer
     \<Rightarrow> ((failure + 'a list) \<times> 'a atomic_ringbuffer) option" where
  "atomic_safe_read N n s =
     (case write_lock (rwlock s) of
        None \<Rightarrow> None
      | Some l \<Rightarrow>
          (let s0 = s\<lparr>rwlock := l\<rparr>
           in if n \<le> available s0
              then
                (case atomic_temporary_copy N n s0 of
                   None \<Rightarrow> None
                 | Some (None, s1) \<Rightarrow>
                     Some (Inl storage_overrun, s1\<lparr>rwlock := write_unlock (rwlock s1)\<rparr>)
                 | Some (Some tmpcopy, s1) \<Rightarrow>
                     (let result = [] @ tmpcopy;
                          s2 = s1\<lparr>available := available s1 - n\<rparr>;
                          s3 = s2\<lparr>readpos := wrapfront N (readpos s2) n\<rparr>
                      in Some (Inr result, s3\<lparr>rwlock := write_unlock (rwlock s3)\<rparr>)))
              else Some (Inl (out_of_range ''cannot read more than available elements''),
                         s0\<lparr>rwlock := write_unlock (rwlock s0)\<rparr>)))"

text \<open>\<open>read_all\<close> (lines 582-585) and \<open>safe_read_all\<close> (lines 606-609).\<close>

definition atomic_read_all ::
  "size_t \<Rightarrow> 'a atomic_ringbuffer \<Rightarrow> ((failure + 'a list) \<times> 'a atomic_ringbuffer) option" where
  "atomic_read_all N s = atomic_read_n N (available s) s"

definition atomic_safe_read_all ::
  "size_t \<Rightarrow> 'a atomic_ringbuffer \<Rightarrow> ((failure + 'a list) \<times> 'a atomic_ringbuffer) option" where
  "atomic_safe_read_all N s = atomic_safe_read N (available s) s"

text \<open>\<open>erase\<close> (lines 633-642) and \<open>clear\<close> (lines 665-668).\<close>

definition atomic_erase ::
  "size_t \<Rightarrow> size_t \<Rightarrow> 'a atomic_ringbuffer \<Rightarrow> 'a atomic_ringbuffer option" where
  "atomic_erase N n s =
     (case write_lock (rwlock s) of
        None \<Rightarrow> None
      | Some l \<Rightarrow>
          (let s0 = s\<lparr>rwlock := l\<rparr>;
               m = min n (available s0);
               s' = erase_loop N m s0
           in Some (s'\<lparr>rwlock := write_unlock (rwlock s')\<rparr>)))"

definition atomic_clear :: "size_t \<Rightarrow> 'a atomic_ringbuffer \<Rightarrow> 'a atomic_ringbuffer option" where
  "atomic_clear N s = atomic_erase N (available s) s"

section \<open>The data model of the specification\<close>

text \<open>
  The cursors of a buffer lie inside its storage of \<open>N\<close> slots.
\<close>

definition cursors_in_storage :: "size_t \<Rightarrow> ('a, 'z) ringbuffer_scheme \<Rightarrow> bool" where
  "cursors_in_storage N s \<longleftrightarrow>
     0 < N \<and> length (buff s) = unat N \<and> readpos s \<le> last_ptr N \<and> writepos s \<le> last_ptr N"

text \<open>
  The invariant as the specification words it: the occupied count is at most the
  capacity, and the write cursor is the read cursor advanced by the occupied count.
\<close>

definition data_model_invariant :: "size_t \<Rightarrow> ('a, 'z) ringbuffer_scheme \<Rightarrow> bool" where
  "data_model_invariant N s \<longleftrightarrow>
     available s \<le> N \<and> writepos s = wrapfront N (readpos s) (available s)"

text \<open>
  The live elements, oldest first: \<open>available\<close> slots from the read cursor on,
  wrapping at the end of the storage.
\<close>

definition live_elements :: "size_t \<Rightarrow> ('a, 'z) ringbuffer_scheme \<Rightarrow> 'a list" where
  "live_elements N s =
     map (\<lambda>k. buff s ! ((readpos s + k) mod unat N)) [0..<unat (available s)]"


section \<open>Wraparound cursor arithmetic\<close>

lemma reduced_advance_le: "0 < N \<Longrightarrow> unat (if n > N then n mod N else n) \<le> unat (N::size_t)"
  by (auto simp: word_less_nat_alt word_le_nat_alt unat_mod_distrib not_less intro: less_imp_le)

lemma reduced_advance_mod: "0 < N \<Longrightarrow> unat (if n > N then n mod N else n) mod unat N = unat n mod unat (N::size_t)"
  by (auto simp: unat_mod_distrib)

lemma wrap_branch:
  fixes n N :: size_t
  assumes p: "p < unat N" and n: "unat n \<le> unat N" and over: "p + unat n > unat N - 1"
  shows "unat (n - 1 - of_nat (unat N - 1 - p)) = p + unat n - unat N"
proof -
  define k where "k = unat N - 1 - p"
  from p over have "unat n \<noteq> 0" by arith
  then have n0: "n \<noteq> 0" by auto
  then have n1: "unat (n - 1) = unat n - 1" by (rule unat_minus_one)
  have "k \<le> unat N" by (simp add: k_def)
  then have k: "unat (of_nat k :: size_t) = k"
    by (rule le_unat_uoi)
  have "k \<le> unat n - 1" using p over by (simp add: k_def)
  then have le: "(of_nat k :: size_t) \<le> n - 1"
    by (simp add: word_le_nat_alt n1 k)
  have "unat (n - 1 - of_nat k) = unat n - 1 - k"
    by (simp add: unat_sub [OF le] n1 k)
  also have "\<dots> = p + unat n - unat N"
    using p n over by (simp add: k_def)
  finally show ?thesis by (simp only: k_def)
qed

lemma int_branches:
  fixes p r M w :: nat
  shows "p < M \<Longrightarrow> r \<le> M \<Longrightarrow> w = (if M - 1 < p + r then p + r - M else p + r) \<Longrightarrow>
     int w = (if int p + int r > int (M - 1) then int 0 + (int r - 1 - (int (M - 1) - int p))
              else int p + int r)"
  by (auto simp: of_nat_diff)

lemma wrapfront_mod:
  assumes "0 < N" "p < unat N"
  shows "wrapfront N p n = (p + unat n) mod unat N"
proof -
  define r where "r = (if n > N then n mod N else n)"
  have le: "unat r \<le> unat N" unfolding r_def using assms(1) by (rule reduced_advance_le)
  have md: "unat r mod unat N = unat n mod unat N" unfolding r_def using assms(1) by (rule reduced_advance_mod)
  have "(p + unat n) mod unat N = (p + unat n mod unat N) mod unat N"
    by (simp add: mod_add_right_eq)
  also have "\<dots> = (p + unat r mod unat N) mod unat N"
    by (simp only: md)
  also have "\<dots> = (p + unat r) mod unat N"
    by (simp add: mod_add_right_eq)
  finally have eq: "(p + unat n) mod unat N = (p + unat r) mod unat N" .
  show ?thesis
  proof (cases "p + unat r > unat N - 1")
    case True
    have "wrapfront N p n = p + unat r - unat N"
      using True wrap_branch [OF assms(2) le True]
      by (simp add: wrapfront_def first_def last_ptr_def r_def Let_def)
    moreover have "(p + unat r) mod unat N = p + unat r - unat N"
      using True le assms(2) by (simp add: mod_if) arith
    ultimately show ?thesis using eq by simp
  next
    case False
    then have "wrapfront N p n = p + unat r"
      by (simp add: wrapfront_def first_def last_ptr_def r_def Let_def)
    moreover have "(p + unat r) mod unat N = p + unat r"
      using False assms(2) by simp
    ultimately show ?thesis using eq by simp
  qed
qed

lemma wrapfront_cases:
  assumes "0 < N" "p < unat N"
  shows "wrapfront N p n =
     (if unat N - 1 < p + unat (if n > N then n mod N else n)
      then p + unat (if n > N then n mod N else n) - unat N
      else p + unat (if n > N then n mod N else n))"
proof -
  define r where "r = (if n > N then n mod N else n)"
  have le: "unat r \<le> unat N" unfolding r_def using assms(1) by (rule reduced_advance_le)
  show ?thesis
  proof (cases "p + unat r > unat N - 1")
    case True
    then show ?thesis
      using wrap_branch [OF assms(2) le True]
      by (simp add: wrapfront_def first_def last_ptr_def r_def Let_def)
  next
    case False
    then show ?thesis
      by (simp add: wrapfront_def first_def last_ptr_def r_def Let_def)
  qed
qed

lemma wrapfront_exact:
  assumes "0 < N" "p \<le> last_ptr N"
  shows "int (wrapfront N p n) =
      (let k = int (unat (if n > N then n mod N else n)) in
       if int p + k > int (last_ptr N)
       then int first + (k - 1 - (int (last_ptr N) - int p))
       else int p + k)"
proof -
  have N0: "0 < unat N" using assms(1) by (simp add: word_less_nat_alt)
  with assms(2) have p: "p < unat N" by (simp add: last_ptr_def)
  show ?thesis
    unfolding Let_def first_def last_ptr_def
    by (rule int_branches [OF p reduced_advance_le [OF assms(1)] wrapfront_cases [OF assms(1) p]])
qed


lemma wrapfront_in_storage:
  assumes "0 < N" "p \<le> last_ptr N"
  shows "wrapfront N p n \<le> last_ptr N"
proof -
  have N0: "0 < unat N" using assms(1) by (simp add: word_less_nat_alt)
  with assms(2) have p: "p < unat N" by (simp add: last_ptr_def)
  have "(p + unat n) mod unat N < unat N" using N0 by simp
  then show ?thesis
    by (simp add: wrapfront_mod [OF assms(1) p] last_ptr_def)
qed

text \<open>
  C6. For every capacity \<open>N > 0\<close>, every cursor \<open>p\<close> inside the storage and every
  advance \<open>n\<close>: with \<open>k\<close> the amount \<open>n\<close>, reduced modulo \<open>N\<close> when \<open>n > N\<close>,
  \<open>wrapfront\<close> returns \<open>first + (k - 1 - (last - p))\<close> when \<open>p + k\<close> passes the last
  slot and \<open>p + k\<close> otherwise, the arithmetic read in the integers (nothing wraps
  and nothing is cut off at zero). The result is the cursor \<open>n\<close> positions further
  modulo \<open>N\<close>, it stays inside the storage, and advancing by \<open>0\<close> or by \<open>N\<close>
  returns \<open>p\<close>.
\<close>

theorem wrapfront_advance:
  assumes "0 < N" and "p \<le> last_ptr N"
  shows "int (wrapfront N p n) =
           (let k = int (unat (if n > N then n mod N else n)) in
            if int p + k > int (last_ptr N)
            then int first + (k - 1 - (int (last_ptr N) - int p))
            else int p + k)
         \<and> wrapfront N p n = (p + unat n) mod unat N
         \<and> wrapfront N p n \<le> last_ptr N
         \<and> wrapfront N p 0 = p
         \<and> wrapfront N p N = p"
proof -
  have N0: "0 < unat N" using assms(1) by (simp add: word_less_nat_alt)
  with assms(2) have p: "p < unat N" by (simp add: last_ptr_def)
  have "wrapfront N p 0 = p"
    using p by (simp add: wrapfront_mod [OF assms(1) p])
  moreover have "wrapfront N p N = p"
    using p by (simp add: wrapfront_mod [OF assms(1) p])
  ultimately show ?thesis
    using wrapfront_exact [OF assms, of n] wrapfront_mod [OF assms(1) p, of n]
      wrapfront_in_storage [OF assms, of n]
    by simp
qed

theorem wrapfront_advance_witness:
  "(0 :: size_t) < 4 \<and> (3 :: nat) \<le> last_ptr 4
   \<and> wrapfront 4 3 9 = 0 \<and> wrapfront 4 3 0 = 3 \<and> wrapfront 4 3 4 = 3"
proof -
  have h1: "(0 :: size_t) < 4" by simp
  have h2: "(3 :: nat) \<le> last_ptr 4" by (simp add: last_ptr_def)
  have "wrapfront 4 3 9 = (3 + unat (9 :: size_t)) mod unat (4 :: size_t)"
    using wrapfront_advance [OF h1 h2, of 9] by blast
  moreover have "wrapfront 4 3 0 = 3" "wrapfront 4 3 4 = 3"
    using wrapfront_advance [OF h1 h2, of 0] by blast+
  ultimately show ?thesis using h1 h2 by simp
qed


section \<open>The bulk read loop and insertion, on buffers whose cursors lie in the storage\<close>

lemma unat_pos_capacity: "0 < (N :: size_t) \<Longrightarrow> 0 < unat N"
  by (simp add: word_less_nat_alt)

lemma in_storage_less: "0 < N \<Longrightarrow> p \<le> last_ptr N \<longleftrightarrow> p < unat N"
  using unat_pos_capacity [of N] by (auto simp: last_ptr_def)

lemma wrapfront_one:
  "0 < N \<Longrightarrow> p < unat N \<Longrightarrow> wrapfront N p 1 = Suc p mod unat N"
  by (simp add: wrapfront_mod)

lemma map_upt_shift:
  "map f [0..<Suc m] = f 0 # map (\<lambda>k. f (Suc k)) [0..<m]"
proof -
  have "[0..<Suc m] = 0 # [Suc 0..<Suc m]"
    by (rule upt_conv_Cons) simp
  also have "[Suc 0..<Suc m] = map Suc [0..<m]"
    by (rule map_Suc_upt [symmetric])
  finally have e: "[0..<Suc m] = 0 # map Suc [0..<m]" .
  show ?thesis
    unfolding e by (simp add: comp_def)
qed

lemma read_loop_result:
  fixes s :: "('a, 'z) ringbuffer_scheme"
  assumes N: "0 < N"
  shows "readpos s < unat N \<Longrightarrow> cap \<le> available s \<Longrightarrow> d = unat (available s) - unat cap \<Longrightarrow>
    read_loop N cap s acc =
      (acc @ map (\<lambda>k. buff s ! ((readpos s + k) mod unat N)) [0..<d],
       s\<lparr>available := cap - 1, readpos := (readpos s + d) mod unat N\<rparr>)"
proof (induction d arbitrary: s acc)
  case 0
  then have "unat (available s) = unat cap" by (simp add: word_le_nat_alt)
  then have eq: "available s = cap" by (simp add: word_unat_eq_iff)
  then show ?case using 0 by (subst read_loop.simps) simp
next
  case (Suc d)
  let ?s2 = "s\<lparr>available := available s - 1, readpos := wrapfront N (readpos s) 1\<rparr>"
  from Suc.prems have lt: "cap < available s" by (simp add: word_less_nat_alt)
  then have a0: "available s \<noteq> 0" by auto
  then have a1: "unat (available s - 1) = unat (available s) - 1" by (rule unat_minus_one)
  have w: "wrapfront N (readpos s) 1 = Suc (readpos s) mod unat N"
    using N Suc.prems(1) by (rule wrapfront_one)
  have p2: "readpos ?s2 < unat N" using unat_pos_capacity [OF N] by (simp add: w)
  have c2: "cap \<le> available ?s2" using Suc.prems lt by (simp add: word_le_nat_alt a1)
  have d2: "d = unat (available ?s2) - unat cap" using Suc.prems by (simp add: a1)
  have step: "read_loop N cap s acc = read_loop N cap ?s2 (acc @ [buff s ! readpos s])"
    using lt by (subst read_loop.simps) (simp add: Let_def)
  have idx: "\<And>k. (Suc (readpos s) mod unat N + k) mod unat N = (readpos s + Suc k) mod unat N"
    by (simp add: mod_add_left_eq)
  show ?case
    unfolding step Suc.IH [OF p2 c2 d2]
    using Suc.prems(1) by (simp add: w idx map_upt_shift del: upt_Suc)
qed

lemma read_n_result:
  fixes s :: "'a ringbuffer"
  assumes N: "0 < N" and p: "readpos s \<le> last_ptr N" and n: "n \<le> available s"
  shows "read_n N n s =
     (Inr (take (unat n) (live_elements N s)),
      s\<lparr>available := available s - n - 1, readpos := (readpos s + unat n) mod unat N\<rparr>)"
proof -
  have p': "readpos s < unat N" using N p by (simp add: in_storage_less)
  have c: "available s - n \<le> available s" using n by (simp add: word_le_nat_alt unat_sub)
  have d: "unat n = unat (available s) - unat (available s - n)"
    using n by (simp add: word_le_nat_alt unat_sub)
  have t: "take (unat n) (live_elements N s)
             = map (\<lambda>k. buff s ! ((readpos s + k) mod unat N)) [0..<unat n]"
    using n by (simp add: live_elements_def take_map word_le_nat_alt min_def)
  show ?thesis
    by (simp add: read_n_def n read_loop_result [OF N p' c d] t)
qed

lemma mod_add_distinct:
  fixes r k a M :: nat
  assumes "k < a" "a < M"
  shows "(r + k) mod M \<noteq> (r + a) mod M"
proof
  assume "(r + k) mod M = (r + a) mod M"
  then have "(r + a) mod M = (r + k) mod M" by simp
  moreover have "r + k \<le> r + a" using assms by simp
  ultimately have "M dvd (r + a) - (r + k)" by (simp add: mod_eq_dvd_iff_nat)
  then have "M dvd a - k" by simp
  moreover have "0 < a - k" "a - k < M" using assms by simp_all
  ultimately show False using dvd_imp_le [of M "a - k"] by simp
qed

lemma unat_succ_below:
  fixes a N :: size_t
  assumes "a < N"
  shows "unat (a + 1) = Suc (unat a)"
proof -
  from assms have "unat a < unat N" by (simp only: word_less_nat_alt)
  then have "Suc (unat a) \<le> unat N" by simp
  also have "unat N < 2 ^ LENGTH(64)" by (rule unsigned_less)
  finally have "unat a + unat (1 :: size_t) < 2 ^ LENGTH(64)" by simp
  then have "unat (a + 1) = unat a + unat (1 :: size_t)"
    by (simp only: unat_add_lem)
  then show ?thesis by simp
qed

lemma emplace_live:
  fixes s :: "'a ringbuffer"
  assumes c: "cursors_in_storage N s" and i: "data_model_invariant N s" and a: "available s < N"
  shows "live_elements N (emplace N x s) = live_elements N s @ [x]"
    and "cursors_in_storage N (emplace N x s)"
    and "data_model_invariant N (emplace N x s)"
    and "unat (available (emplace N x s)) = Suc (unat (available s))"
proof -
  from c have N: "0 < N" and len: "length (buff s) = unat N"
    by (simp_all add: cursors_in_storage_def)
  from c have r: "readpos s < unat N" and w: "writepos s < unat N"
    by (simp_all add: cursors_in_storage_def in_storage_less [OF N, symmetric])
  have N0: "0 < unat N" using N by (rule unat_pos_capacity)
  from i have wr: "writepos s = (readpos s + unat (available s)) mod unat N"
    by (simp add: data_model_invariant_def wrapfront_mod [OF N r])
  have ua: "unat (available s) < unat N" using a by (simp add: word_less_nat_alt)
  have su: "unat (available s + 1) = Suc (unat (available s))" using a by (rule unat_succ_below)
  have e: "emplace N x s = s\<lparr>buff := (buff s)[writepos s := x],
             writepos := Suc (writepos s) mod unat N, available := available s + 1\<rparr>"
    using a by (simp add: emplace_def Let_def wrapfront_one [OF N w])
  show "unat (available (emplace N x s)) = Suc (unat (available s))"
    by (simp add: e su)
  show "cursors_in_storage N (emplace N x s)"
    using N len r N0 by (simp add: e cursors_in_storage_def in_storage_less)
  have "available s + 1 \<le> N"
    using ua by (simp add: word_le_nat_alt su)
  moreover have "Suc (writepos s) mod unat N = (readpos s + Suc (unat (available s))) mod unat N"
    unfolding wr by (simp add: mod_Suc_eq)
  ultimately show "data_model_invariant N (emplace N x s)"
    by (simp add: e data_model_invariant_def wrapfront_mod [OF N r] su)
  have old: "(buff s)[writepos s := x] ! ((readpos s + k) mod unat N)
               = buff s ! ((readpos s + k) mod unat N)"
    if "k < unat (available s)" for k
  proof -
    have "(readpos s + k) mod unat N \<noteq> writepos s"
      unfolding wr using that ua by (rule mod_add_distinct)
    then show ?thesis by simp
  qed
  have new: "(buff s)[writepos s := x] ! ((readpos s + unat (available s)) mod unat N) = x"
    using w len by (simp add: wr [symmetric])
  show "live_elements N (emplace N x s) = live_elements N s @ [x]"
    by (simp add: e live_elements_def su old new)
qed

lemma emplace_all_live:
  fixes s :: "'a ringbuffer"
  shows "cursors_in_storage N s \<Longrightarrow> data_model_invariant N s \<Longrightarrow>
     unat (available s) + length es \<le> unat N \<Longrightarrow>
     live_elements N (fold (emplace N) es s) = live_elements N s @ es
     \<and> cursors_in_storage N (fold (emplace N) es s)
     \<and> data_model_invariant N (fold (emplace N) es s)
     \<and> unat (available (fold (emplace N) es s)) = unat (available s) + length es"
proof (induction es arbitrary: s)
  case Nil
  then show ?case by simp
next
  case (Cons e es)
  from Cons.prems(3) have a: "available s < N" by (simp add: word_less_nat_alt)
  note E = emplace_live [OF Cons.prems(1,2) a, of e]
  have "unat (available (emplace N e s)) + length es \<le> unat N"
    using Cons.prems(3) by (simp add: E(4))
  from Cons.IH [OF E(2) E(3) this] show ?case
    by (simp add: E(1) E(4))
qed

lemma ringbuffer_init_facts:
  assumes "0 < N"
  shows "cursors_in_storage N (ringbuffer_init N d)"
    and "data_model_invariant N (ringbuffer_init N d)"
    and "live_elements N (ringbuffer_init N d) = []"
    and "available (ringbuffer_init N d) = 0"
  using assms unat_pos_capacity [OF assms]
  by (simp_all add: cursors_in_storage_def data_model_invariant_def live_elements_def
        ringbuffer_init_def first_def in_storage_less wrapfront_mod)

lemma round_trip_general:
  assumes N: "0 < N" and len: "length es = unat N"
  shows "fst (read_all N (fold (emplace N) es (ringbuffer_init N d))) = Inr es"
proof -
  let ?s = "fold (emplace N) es (ringbuffer_init N d)"
  have "unat (available (ringbuffer_init N d)) + length es \<le> unat N"
    using len by (simp add: ringbuffer_init_facts(4) [OF N])
  from emplace_all_live [OF ringbuffer_init_facts(1) [OF N] ringbuffer_init_facts(2) [OF N] this]
  have live: "live_elements N ?s = es" and c: "cursors_in_storage N ?s"
    and a: "unat (available ?s) = length es"
    by (simp_all add: ringbuffer_init_facts [OF N])
  from c have r: "readpos ?s \<le> last_ptr N" by (simp add: cursors_in_storage_def)
  show ?thesis
    by (simp add: read_all_def read_n_result [OF N r] live a)
qed


section \<open>Frame properties of the cursors\<close>

lemma read_loop_writepos:
  "writepos (snd (read_loop N cap s acc)) = writepos s"
proof (induction N cap s acc rule: read_loop.induct)
  case (1 N cap s result)
  show ?case
  proof (cases "cap < available s")
    case True
    from "1" [OF True refl refl refl] show ?thesis
      using True by (subst read_loop.simps) (simp add: Let_def)
  next
    case False
    then show ?thesis by (subst read_loop.simps) simp
  qed
qed

lemma erase_loop_writepos:
  "writepos (erase_loop N m s) = writepos s"
proof (induction N m s rule: erase_loop.induct)
  case (1 N m s)
  show ?case
  proof (cases "m = 0")
    case True
    then show ?thesis by (subst erase_loop.simps) simp
  next
    case False
    from "1" [OF False refl] show ?thesis
      using False by (subst erase_loop.simps) (simp add: Let_def)
  qed
qed

text \<open>
  C10. In every buffer state, \<open>pop\<close>, \<open>read\<close>, \<open>read(n)\<close>, \<open>safe_read(n)\<close>,
  \<open>erase(n)\<close> and \<open>clear\<close> leave the write cursor as it was, \<open>emplace\<close> leaves the
  read cursor as it was, and \<open>size\<close> and \<open>capacity\<close> return the buffer unchanged in
  every field.
\<close>

theorem cursor_framing:
  "writepos (pop N s) = writepos s
   \<and> writepos (snd (read N s)) = writepos s
   \<and> writepos (snd (read_n N n s)) = writepos s
   \<and> writepos (snd (safe_read N n s)) = writepos s
   \<and> writepos (erase N n s) = writepos s
   \<and> writepos (clear N s) = writepos s
   \<and> readpos (emplace N x s) = readpos s
   \<and> snd (size_rb s) = s
   \<and> snd (capacity N s) = s"
proof -
  have "writepos (pop N s) = writepos s"
    by (simp add: pop_def Let_def)
  moreover have "writepos (snd (read N s)) = writepos s"
    by (simp add: read_def Let_def)
  moreover have "writepos (snd (read_n N n s)) = writepos s"
    using read_loop_writepos [of N "available s - n" s "[]"]
    by (auto simp: read_n_def Let_def split: prod.splits)
  moreover have "writepos (snd (safe_read N n s)) = writepos s"
    by (simp add: safe_read_def Let_def split: option.splits)
  moreover have "writepos (erase N n s) = writepos s"
    by (simp add: erase_def Let_def erase_loop_writepos)
  moreover have "writepos (clear N s) = writepos s"
    by (simp add: clear_def erase_def Let_def erase_loop_writepos)
  moreover have "readpos (emplace N x s) = readpos s"
    by (simp add: emplace_def Let_def)
  moreover have "snd (size_rb s) = s" "snd (capacity N s) = s"
    by (simp_all add: size_rb_def capacity_def)
  ultimately show ?thesis by simp
qed

section \<open>Insertion\<close>

text \<open>
  C5. In every buffer state: when \<open>available < N\<close>, \<open>emplace\<close> stores the new
  element at the write cursor, moves the write cursor by \<open>wrapfront\<close> with the
  default advance 1 (one position further modulo \<open>N\<close> when the cursors lie in the
  storage) and adds one to \<open>available\<close>, which does not wrap; when
  \<open>available = N\<close>, \<open>emplace\<close> returns the buffer unchanged and raises nothing.
\<close>

theorem emplace_behaviour:
  fixes s :: "'a ringbuffer"
  shows "(available s < N \<longrightarrow>
            emplace N x s = s\<lparr>buff := (buff s)[writepos s := x],
                              writepos := wrapfront N (writepos s) 1,
                              available := available s + 1\<rparr>
            \<and> unat (available (emplace N x s)) = unat (available s) + 1
            \<and> readpos (emplace N x s) = readpos s
            \<and> (cursors_in_storage N s \<longrightarrow>
                  writepos (emplace N x s) = (writepos s + 1) mod unat N
                  \<and> buff (emplace N x s) ! writepos s = x
                  \<and> length (buff (emplace N x s)) = length (buff s)))
         \<and> (available s = N \<longrightarrow> emplace N x s = s)"
proof -
  have full: "emplace N x s = s" if "available s = N"
    using that by (simp add: emplace_def)
  have e: "emplace N x s = s\<lparr>buff := (buff s)[writepos s := x],
                              writepos := wrapfront N (writepos s) 1,
                              available := available s + 1\<rparr>" if "available s < N"
    using that by (simp add: emplace_def Let_def)
  have cnt: "unat (available s + 1) = unat (available s) + 1" if "available s < N"
    using unat_succ_below [OF that] by simp
  have w: "wrapfront N (writepos s) 1 = (writepos s + 1) mod unat N
           \<and> (buff s)[writepos s := x] ! writepos s = x"
    if c: "cursors_in_storage N s"
  proof -
    from c have N: "0 < N" and len: "length (buff s) = unat N"
      by (simp_all add: cursors_in_storage_def)
    from c have wp: "writepos s < unat N"
      by (simp add: cursors_in_storage_def in_storage_less [OF N, symmetric])
    show ?thesis using wp len by (simp add: wrapfront_one [OF N wp])
  qed
  show ?thesis
    using full e cnt w by simp
qed

theorem emplace_behaviour_witness:
  "available (ringbuffer_init 2 (0 :: nat)) < 2
   \<and> cursors_in_storage 2 (ringbuffer_init 2 (0 :: nat))
   \<and> emplace 2 7 (ringbuffer_init 2 (0 :: nat))
       = \<lparr>buff = [7, 0], writepos = 1, readpos = 0, available = 1\<rparr>
   \<and> available \<lparr>buff = [7, 8 :: nat], writepos = 0, readpos = 0, available = 2\<rparr> = 2
   \<and> emplace 2 9 \<lparr>buff = [7, 8 :: nat], writepos = 0, readpos = 0, available = 2\<rparr>
       = \<lparr>buff = [7, 8], writepos = 0, readpos = 0, available = 2\<rparr>"
proof -
  let ?s = "ringbuffer_init 2 (0 :: nat)"
  let ?f = "\<lparr>buff = [7, 8 :: nat], writepos = 0, readpos = 0, available = 2\<rparr>"
  have h1: "available ?s < 2" by (simp add: ringbuffer_init_def)
  have h2: "cursors_in_storage 2 ?s"
    by (simp add: cursors_in_storage_def ringbuffer_init_def first_def last_ptr_def)
  have h3: "available ?f = 2" by simp
  have w: "wrapfront 2 0 1 = 1" by (simp add: wrapfront_def first_def last_ptr_def)
  have rep: "replicate 2 (0 :: nat) = [0, 0]" by (simp add: numeral_eq_Suc)
  from emplace_behaviour [of ?s 2 7] h1
  have "emplace 2 7 ?s = ?s\<lparr>buff := (buff ?s)[writepos ?s := 7],
                              writepos := wrapfront 2 (writepos ?s) 1,
                              available := available ?s + 1\<rparr>"
    by blast
  then have a: "emplace 2 7 ?s = \<lparr>buff = [7, 0], writepos = 1, readpos = 0, available = 1\<rparr>"
    by (simp add: ringbuffer_init_def first_def w rep)
  from emplace_behaviour [of ?f 2 9] h3 have b: "emplace 2 9 ?f = ?f"
    by blast
  show ?thesis using h1 h2 h3 a b by simp
qed

section \<open>The FIFO round trip\<close>

lemma scenario_state:
  "emplace 4 e5 (emplace 4 e4 (pop 4 (pop 4 (fold (emplace 4) [e0, e1, e2, e3] (ringbuffer_init 4 d)))))
   = \<lparr>buff = [e4, e5, e2, e3], writepos = 2, readpos = 2, available = 4\<rparr>"
proof -
  have rep: "replicate 4 d = [d, d, d, d]" by (simp add: numeral_eq_Suc)
  show ?thesis
    by (simp add: emplace_def pop_def ringbuffer_init_def wrapfront_def first_def last_ptr_def
          Let_def rep)
qed

lemma scenario_read:
  "fst (read_all 4 \<lparr>buff = [e4, e5, e2, e3], writepos = 2, readpos = 2, available = 4\<rparr>)
    = Inr [e2, e3, e4, e5]"
proof -
  let ?s = "\<lparr>buff = [e4, e5, e2, e3], writepos = 2, readpos = 2, available = 4\<rparr>"
  have N: "(0 :: size_t) < 4" by simp
  have r: "readpos ?s \<le> last_ptr 4" by (simp add: last_ptr_def)
  have n: "available ?s \<le> available ?s" by simp
  have u: "[0..<4::nat] = [0, 1, 2, 3]" by code_simp
  have l: "live_elements 4 ?s = [e2, e3, e4, e5]"
    by (simp add: live_elements_def u)
  show ?thesis
    unfolding read_all_def read_n_result [OF N r n] by (simp add: l)
qed

text \<open>
  C7. After inserting \<open>N\<close> elements \<open>es\<close> into a freshly constructed buffer of
  capacity \<open>N\<close>, \<open>read_all\<close> returns exactly \<open>es\<close>, in that order. With capacity
  4, after four insertions, two \<open>pop\<close>s and two more insertions the storage is
  \<open>[e4, e5, e2, e3]\<close> with the read cursor on slot 2, and \<open>read_all\<close> returns
  \<open>[e2, e3, e4, e5]\<close>, the insertion order.
\<close>

theorem fifo_round_trip:
  "(0 < N \<and> length es = unat N \<longrightarrow>
      fst (read_all N (fold (emplace N) es (ringbuffer_init N d))) = Inr es)
   \<and> (let s = emplace 4 e5 (emplace 4 e4 (pop 4 (pop 4
                (fold (emplace 4) [e0, e1, e2, e3] (ringbuffer_init 4 d')))))
      in buff s = [e4, e5, e2, e3] \<and> readpos s = 2
         \<and> fst (read_all 4 s) = Inr [e2, e3, e4, e5])"
  using round_trip_general [of N es d] scenario_state [of e5 e4 e0 e1 e2 e3 d']
    scenario_read [of e4 e5 e2 e3]
  by (simp add: Let_def)

theorem fifo_round_trip_witness:
  "(0 :: size_t) < 3 \<and> length [5, 6, 7 :: nat] = unat (3 :: size_t)
   \<and> fst (read_all 3 (fold (emplace 3) [5, 6, 7 :: nat] (ringbuffer_init 3 0))) = Inr [5, 6, 7]"
  using fifo_round_trip [of 3 "[5, 6, 7 :: nat]" 0, THEN conjunct1] by simp

section \<open>Reads that fail\<close>

text \<open>
  C4, as amended. \<open>front\<close> and \<open>read\<close> on an empty buffer, and \<open>read(n)\<close> and
  \<open>safe_read(n)\<close> with \<open>n > available\<close>, throw \<open>std::out_of_range\<close> and leave the
  buffer unchanged in every field. The message of \<open>front\<close> differs from the
  message of \<open>read\<close>; \<open>read(n)\<close> and \<open>safe_read(n)\<close> carry one and the same
  message.
\<close>

theorem failed_reads:
  "(available s = 0 \<longrightarrow>
      front s = (Inl (out_of_range ''cannot access first of empty ringbuffer''), s)
      \<and> read N s = (Inl (out_of_range ''invalid read on empty ringbuffer''), s)
      \<and> fst (front s) \<noteq> fst (read N s))
   \<and> (available s < n \<longrightarrow>
      read_n N n s = (Inl (out_of_range ''cannot read more than available elements''), s)
      \<and> safe_read N n s = (Inl (out_of_range ''cannot read more than available elements''), s))"
proof -
  have bulk: "read_n N n s = (Inl (out_of_range ''cannot read more than available elements''), s)
      \<and> safe_read N n s = (Inl (out_of_range ''cannot read more than available elements''), s)"
    if "available s < n"
  proof -
    from that have "\<not> n \<le> available s" by (simp add: not_le)
    then show ?thesis by (simp add: read_n_def safe_read_def)
  qed
  have single: "front s = (Inl (out_of_range ''cannot access first of empty ringbuffer''), s)
      \<and> read N s = (Inl (out_of_range ''invalid read on empty ringbuffer''), s)
      \<and> fst (front s) \<noteq> fst (read N s)"
    if "available s = 0"
    using that by (simp add: front_def read_def)
  show ?thesis using bulk single by blast
qed

theorem failed_reads_witness:
  "available (ringbuffer_init 4 (0 :: nat)) = 0
   \<and> available (ringbuffer_init 4 (0 :: nat)) < 1
   \<and> front (ringbuffer_init 4 (0 :: nat))
       = (Inl (out_of_range ''cannot access first of empty ringbuffer''), ringbuffer_init 4 0)
   \<and> read 4 (ringbuffer_init 4 (0 :: nat))
       = (Inl (out_of_range ''invalid read on empty ringbuffer''), ringbuffer_init 4 0)
   \<and> read_n 4 1 (ringbuffer_init 4 (0 :: nat))
       = (Inl (out_of_range ''cannot read more than available elements''), ringbuffer_init 4 0)
   \<and> safe_read 4 1 (ringbuffer_init 4 (0 :: nat))
       = (Inl (out_of_range ''cannot read more than available elements''), ringbuffer_init 4 0)"
proof -
  have h1: "available (ringbuffer_init 4 (0 :: nat)) = 0" by (simp add: ringbuffer_init_def)
  have h2: "available (ringbuffer_init 4 (0 :: nat)) < 1" by (simp add: ringbuffer_init_def)
  from failed_reads [of "ringbuffer_init 4 (0 :: nat)" 4 1] h1 h2 show ?thesis
    by blast
qed

text \<open>
  C4 as stated asks for a message that tells which operation failed. On a fresh
  buffer of capacity 4, \<open>read(1)\<close> and \<open>safe_read(1)\<close> fail with the same
  message.
\<close>

theorem bulk_read_messages_coincide:
  "fst (read_n 4 1 (ringbuffer_init 4 (0 :: nat)))
     = Inl (out_of_range ''cannot read more than available elements'')
   \<and> fst (safe_read 4 1 (ringbuffer_init 4 (0 :: nat)))
     = Inl (out_of_range ''cannot read more than available elements'')
   \<and> fst (read_n 4 1 (ringbuffer_init 4 (0 :: nat)))
     = fst (safe_read 4 1 (ringbuffer_init 4 (0 :: nat)))"
  by code_simp

section \<open>Operations that keep the data-model invariant\<close>

text \<open>
  On a buffer whose cursors lie in the storage, \<open>emplace\<close> (lemma
  \<open>emplace_live\<close>), \<open>pop\<close>, \<open>read\<close>, \<open>erase\<close> and a \<open>safe_read\<close> that returns
  keep the invariant.
\<close>

lemma storage_facts:
  assumes "cursors_in_storage N s"
  shows "0 < N" "0 < unat N" "length (buff s) = unat N" "readpos s < unat N" "writepos s < unat N"
proof -
  from assms show N: "0 < N" and "length (buff s) = unat N"
    by (simp_all add: cursors_in_storage_def)
  from N show "0 < unat N" by (rule unat_pos_capacity)
  from assms show "readpos s < unat N" "writepos s < unat N"
    by (simp_all add: cursors_in_storage_def in_storage_less [OF N, symmetric])
qed

lemma invariant_iff:
  assumes "cursors_in_storage N s"
  shows "data_model_invariant N s \<longleftrightarrow>
     unat (available s) \<le> unat N \<and> writepos s = (readpos s + unat (available s)) mod unat N"
  using storage_facts [OF assms]
  by (simp add: data_model_invariant_def wrapfront_mod word_le_nat_alt)

lemma advance_split:
  fixes r a k M :: nat
  assumes "k \<le> a"
  shows "((r + k) mod M + (a - k)) mod M = (r + a) mod M"
proof -
  have "((r + k) mod M + (a - k)) mod M = (r + k + (a - k)) mod M"
    by (simp add: mod_add_left_eq)
  also have "r + k + (a - k) = r + a" using assms by simp
  finally show ?thesis .
qed

lemma pop_keeps_invariant:
  fixes s :: "'a ringbuffer"
  assumes c: "cursors_in_storage N s" and i: "data_model_invariant N s"
  shows "cursors_in_storage N (pop N s) \<and> data_model_invariant N (pop N s)"
proof (cases "available s = 0")
  case True
  then show ?thesis using c i by (simp add: pop_def)
next
  case False
  note f = storage_facts [OF c]
  from False have a1: "unat (available s - 1) = unat (available s) - 1" by (rule unat_minus_one)
  from False have pos: "1 \<le> unat (available s)" by (simp add: unat_gt_0 Suc_le_eq)
  have p: "pop N s = s\<lparr>readpos := Suc (readpos s) mod unat N, available := available s - 1\<rparr>"
    using False by (simp add: pop_def Let_def wrapfront_one [OF f(1) f(4)])
  have c': "cursors_in_storage N (pop N s)"
    using f by (simp add: p cursors_in_storage_def in_storage_less [OF f(1)])
  from i have inv: "unat (available s) \<le> unat N"
    "writepos s = (readpos s + unat (available s)) mod unat N"
    by (simp_all add: invariant_iff [OF c])
  have "(Suc (readpos s) mod unat N + (unat (available s) - 1)) mod unat N
          = (readpos s + unat (available s)) mod unat N"
    using advance_split [OF pos, of "readpos s" "unat N"] by simp
  then have "data_model_invariant N (pop N s)"
    unfolding invariant_iff [OF c'] using inv by (simp add: p a1)
  with c' show ?thesis by simp
qed

lemma read_keeps_invariant:
  fixes s :: "'a ringbuffer"
  assumes c: "cursors_in_storage N s" and i: "data_model_invariant N s"
  shows "cursors_in_storage N (snd (read N s)) \<and> data_model_invariant N (snd (read N s))"
proof -
  have "snd (read N s) = pop N s"
    by (simp add: read_def pop_def Let_def)
  then show ?thesis using pop_keeps_invariant [OF c i] by simp
qed

lemma erase_loop_result:
  fixes s :: "('a, 'z) ringbuffer_scheme"
  assumes N: "0 < N"
  shows "readpos s < unat N \<Longrightarrow> m \<le> available s \<Longrightarrow> d = unat m \<Longrightarrow>
    erase_loop N m s =
      s\<lparr>readpos := (readpos s + d) mod unat N, available := available s - m\<rparr>"
proof (induction d arbitrary: s m)
  case 0
  then have "m = 0" by (simp add: unat_eq_0)
  then show ?case using 0 by (subst erase_loop.simps) simp
next
  case (Suc d)
  let ?s2 = "s\<lparr>readpos := wrapfront N (readpos s) 1, available := available s - 1\<rparr>"
  from Suc.prems have m0: "m \<noteq> 0" by auto
  then have m1: "unat (m - 1) = unat m - 1" by (rule unat_minus_one)
  from m0 Suc.prems(2) have a0: "available s \<noteq> 0" by auto
  then have a1: "unat (available s - 1) = unat (available s) - 1" by (rule unat_minus_one)
  have w: "wrapfront N (readpos s) 1 = Suc (readpos s) mod unat N"
    using N Suc.prems(1) by (rule wrapfront_one)
  have p2: "readpos ?s2 < unat N" using unat_pos_capacity [OF N] by (simp add: w)
  have c2: "m - 1 \<le> available ?s2"
    using Suc.prems(2) by (simp add: word_le_nat_alt a1 m1)
  have d2: "d = unat (m - 1)" using Suc.prems(3) by (simp add: m1)
  have step: "erase_loop N m s = erase_loop N (m - 1) ?s2"
    using m0 by (subst erase_loop.simps) (simp add: Let_def)
  have idx: "(Suc (readpos s) mod unat N + d) mod unat N = (readpos s + Suc d) mod unat N"
    by (simp add: mod_add_left_eq)
  show ?case
    unfolding step Suc.IH [OF p2 c2 d2]
    by (simp add: w idx)
qed

lemma erase_keeps_invariant:
  fixes s :: "'a ringbuffer"
  assumes c: "cursors_in_storage N s" and i: "data_model_invariant N s"
  shows "cursors_in_storage N (erase N n s) \<and> data_model_invariant N (erase N n s)
         \<and> available (erase N n s) = available s - min n (available s)"
proof -
  note f = storage_facts [OF c]
  let ?m = "min n (available s)"
  have le: "?m \<le> available s" by simp
  have e: "erase N n s = s\<lparr>readpos := (readpos s + unat ?m) mod unat N,
                            available := available s - ?m\<rparr>"
    unfolding erase_def Let_def by (rule erase_loop_result [OF f(1) f(4) le refl])
  have c': "cursors_in_storage N (erase N n s)"
    using f by (simp add: e cursors_in_storage_def in_storage_less [OF f(1)])
  from i have inv: "unat (available s) \<le> unat N"
    "writepos s = (readpos s + unat (available s)) mod unat N"
    by (simp_all add: invariant_iff [OF c])
  have ule: "unat ?m \<le> unat (available s)" using le by (simp only: word_le_nat_alt)
  have sub: "unat (available s - ?m) = unat (available s) - unat ?m"
    using le by (rule unat_sub)
  have "((readpos s + unat ?m) mod unat N + (unat (available s) - unat ?m)) mod unat N
          = (readpos s + unat (available s)) mod unat N"
    using ule by (rule advance_split)
  then have "data_model_invariant N (erase N n s)"
    unfolding invariant_iff [OF c'] using inv by (simp add: e sub)
  with c' show ?thesis by (simp add: e)
qed

lemma safe_read_keeps_invariant:
  fixes s :: "'a ringbuffer"
  assumes c: "cursors_in_storage N s" and i: "data_model_invariant N s"
    and r: "safe_read N n s = (Inr xs, s')"
  shows "cursors_in_storage N s' \<and> data_model_invariant N s' \<and> available s' = available s - n"
proof -
  note f = storage_facts [OF c]
  from r have le: "n \<le> available s"
    by (auto simp: safe_read_def split: if_splits)
  from r le have e: "s' = s\<lparr>available := available s - n, readpos := (readpos s + unat n) mod unat N\<rparr>"
    by (auto simp: safe_read_def Let_def wrapfront_mod [OF f(1) f(4)] split: option.splits)
  have c': "cursors_in_storage N s'"
    using f by (simp add: e cursors_in_storage_def in_storage_less [OF f(1)])
  from i have inv: "unat (available s) \<le> unat N"
    "writepos s = (readpos s + unat (available s)) mod unat N"
    by (simp_all add: invariant_iff [OF c])
  have ule: "unat n \<le> unat (available s)" using le by (simp only: word_le_nat_alt)
  have sub: "unat (available s - n) = unat (available s) - unat n"
    using le by (rule unat_sub)
  have "((readpos s + unat n) mod unat N + (unat (available s) - unat n)) mod unat N
          = (readpos s + unat (available s)) mod unat N"
    using ule by (rule advance_split)
  then have "data_model_invariant N s'"
    unfolding invariant_iff [OF c'] using inv by (simp add: e sub)
  with c' show ?thesis by (simp add: e)
qed

section \<open>The bulk read\<close>

text \<open>
  C1 at a reachable state. Capacity 4, elements 10, 11, 12 inserted, so \<open>size\<close> is
  3. \<open>read(2)\<close> returns \<open>[10, 11]\<close> and moves the read cursor by 2, but \<open>size\<close>
  afterwards is 0, not \<open>3 - 2 = 1\<close>: the loop test \<open>available-- > cap\<close>
  decrements once more when it fails (lemma \<open>read_n_result\<close> gives
  \<open>available - n - 1\<close> in general).
\<close>

theorem read_n_count_one_short:
  "(let s = emplace 4 12 (emplace 4 11 (emplace 4 (10 :: nat) (ringbuffer_init 4 0)))
    in fst (size_rb s) = 3
       \<and> read_n 4 2 s = (Inr [10, 11], s\<lparr>readpos := 2, available := 0\<rparr>)
       \<and> fst (size_rb (snd (read_n 4 2 s))) = 0
       \<and> fst (size_rb (snd (read_n 4 2 s))) \<noteq> fst (size_rb s) - 2)"
  by code_simp

text \<open>
  C2 at a reachable state. The buffer with 10, 11, 12 inserted satisfies the
  data-model invariant; after \<open>read(2)\<close> it does not: \<open>available\<close> is 0 and the
  write cursor is on slot 3 while the read cursor, advanced by \<open>available\<close>, is
  on slot 2. After \<open>read_all\<close> on a fresh buffer \<open>available\<close> is \<open>2^64 - 1\<close>,
  above the capacity.
\<close>

theorem read_n_breaks_data_model_invariant:
  "(let s = emplace 4 12 (emplace 4 11 (emplace 4 (10 :: nat) (ringbuffer_init 4 0)));
        s' = snd (read_n 4 2 s);
        s'' = snd (read_all 4 (ringbuffer_init 4 (0 :: nat)))
    in data_model_invariant 4 s \<and> \<not> data_model_invariant 4 s'
       \<and> available s' = 0 \<and> readpos s' = 2 \<and> writepos s' = 3
       \<and> wrapfront 4 (readpos s') (available s') = 2
       \<and> \<not> data_model_invariant 4 s''
       \<and> available s'' = 18446744073709551615 \<and> \<not> available s'' \<le> 4)"
  by code_simp

section \<open>The copying bulk read\<close>

text \<open>
  When the requested span ends before the last slot, \<open>safe_read\<close> returns the
  \<open>n\<close> oldest elements. When it reaches the last slot or wraps, the result is the
  two segments in the order and with the lengths the code gives them.
\<close>

lemma segment_as_map:
  "b + k \<le> length xs \<Longrightarrow> take k (drop b xs) = map (\<lambda>i. xs ! (b + i)) [0..<k]"
  by (rule nth_equalityI) simp_all

lemma safe_read_one_segment:
  fixes s :: "'a ringbuffer"
  assumes c: "cursors_in_storage N s" and n: "n \<le> available s"
    and fit: "readpos s + unat n \<le> last_ptr N"
  shows "safe_read N n s =
     (Inr (take (unat n) (live_elements N s)),
      s\<lparr>available := available s - n, readpos := readpos s + unat n\<rparr>)"
proof -
  note f = storage_facts [OF c]
  from fit f(2) have lt: "readpos s + unat n < unat N" by (simp add: last_ptr_def)
  have mn: "min n (available s) = n" using n by (simp add: min_def)
  have tc: "temporary_copy N n s = Some (take (unat n) (drop (readpos s) (buff s)))"
    using fit lt f(3)
    by (simp add: temporary_copy_def mn Let_def insert_at_begin_def first_def)
  have "take (unat n) (drop (readpos s) (buff s))
          = map (\<lambda>i. buff s ! (readpos s + i)) [0..<unat n]"
    using lt f(3) by (simp add: segment_as_map)
  also have "\<dots> = map (\<lambda>k. buff s ! ((readpos s + k) mod unat N)) [0..<unat n]"
    using lt by simp
  also have "\<dots> = take (unat n) (live_elements N s)"
    using n by (simp add: live_elements_def take_map word_le_nat_alt min_def)
  finally have seg: "take (unat n) (drop (readpos s) (buff s)) = take (unat n) (live_elements N s)" .
  have w: "wrapfront N (readpos s) n = readpos s + unat n"
    using lt by (simp add: wrapfront_mod [OF f(1) f(4)])
  show ?thesis
    using n by (simp add: safe_read_def tc seg w Let_def)
qed

lemma safe_read_two_segments:
  fixes s :: "'a ringbuffer"
  assumes c: "cursors_in_storage N s" and n: "n \<le> available s"
    and over: "last_ptr N < readpos s + unat n"
    and inside: "readpos s + unat n + 2 \<le> 2 * unat N"
  shows "fst (safe_read N n s) =
     Inr (take (readpos s + unat n + 2 - unat N) (buff s) @ drop (readpos s) (buff s))"
proof -
  note f = storage_facts [OF c]
  define m where "m = last_ptr N - readpos s"
  have m: "m = unat N - 1 - readpos s" by (simp add: m_def last_ptr_def)
  from over f have nm: "m < unat n" by (simp add: m last_ptr_def)
  have mn: "min n (available s) = n" using n by (simp add: min_def)
  have "m \<le> unat N" by (simp add: m)
  then have um: "unat (of_nat m :: size_t) = m" by (rule le_unat_uoi)
  have le: "(of_nat m :: size_t) \<le> n" using nm by (simp add: word_le_nat_alt um)
  have d: "unat (n - of_nat m) = unat n - m" by (simp add: unat_sub [OF le] um)
  have "unat n - m + 1 \<le> unat N" using inside f nm by (simp add: m)
  also have "unat N < 2 ^ LENGTH(64)" by (rule unsigned_less)
  finally have "unat (n - of_nat m) + unat (1 :: size_t) < 2 ^ LENGTH(64)" by (simp add: d)
  then have "unat (n - of_nat m + 1) = unat (n - of_nat m) + unat (1 :: size_t)"
    by (simp only: unat_add_lem)
  then have step: "unat (n - of_nat m + 1) = unat n - m + 1"
    by (simp add: d)
  have "unat n - m + 1 = readpos s + unat n + 2 - unat N"
    using nm f(4) unfolding m by arith
  with step have e2: "unat (n - of_nat m + 1) = readpos s + unat n + 2 - unat N"
    by (simp only:)
  have e2le: "readpos s + unat n + 2 - unat N \<le> length (buff s)"
    using inside f by simp
  have e1: "Suc (readpos s + m) = unat N" using f by (simp add: m)
  have e3: "unat N - readpos s = Suc m" using f by (simp add: m)
  have tc: "temporary_copy N n s
      = Some (take (readpos s + unat n + 2 - unat N) (buff s) @ drop (readpos s) (buff s))"
    using over e2le f(3)
    by (simp add: temporary_copy_def mn Let_def insert_at_begin_def first_def not_le
          m_def [symmetric] e2 e1 e3)
  show ?thesis
    using n by (simp add: safe_read_def tc Let_def)
qed

text \<open>
  C3 at a reachable state. Capacity 4: insert 10, 11, 12, 13, \<open>pop\<close> twice, insert
  14, 15. The storage is \<open>[14, 15, 12, 13]\<close> with the read cursor on slot 2.
  \<open>read(3)\<close> returns \<open>[12, 13, 14]\<close>; \<open>safe_read(3)\<close> returns the five elements
  \<open>[14, 15, 12, 12, 13]\<close>: the second segment has \<open>n - m + 1 = 3\<close> elements instead
  of \<open>n - (m + 1) = 1\<close> and is inserted in front of the first. With capacity 2
  and elements 1, 2 the span ends on the last slot without wrapping, and
  \<open>safe_read(2)\<close> returns \<open>[1, 2, 1, 2]\<close>.
\<close>

theorem safe_read_wrong_segments:
  "(let s = emplace 4 15 (emplace 4 14 (pop 4 (pop 4
               (fold (emplace 4) [10, 11, 12, 13 :: nat] (ringbuffer_init 4 0)))));
        t = emplace 2 2 (emplace 2 (1 :: nat) (ringbuffer_init 2 0))
    in s = \<lparr>buff = [14, 15, 12, 13], writepos = 2, readpos = 2, available = 4\<rparr>
       \<and> fst (read_n 4 3 s) = Inr [12, 13, 14]
       \<and> fst (safe_read 4 3 s) = Inr [14, 15, 12, 12, 13]
       \<and> fst (read_n 2 2 t) = Inr [1, 2]
       \<and> fst (safe_read 2 2 t) = Inr [1, 2, 1, 2])"
  by code_simp

section \<open>The concurrent variant under one caller\<close>

lemma write_lock_held:
  "write_lock m = Some l \<Longrightarrow> mut l \<and> \<not> mut m \<and> readers l = readers m"
  by (rule write_lock.raw_induct [where P = "\<lambda>m l. mut l \<and> \<not> mut m \<and> readers l = readers m"])
     (auto split: if_splits)

lemma write_lock_free:
  "\<not> mut m \<Longrightarrow> write_lock m = Some (m\<lparr>mut := True\<rparr>)"
  by (simp add: write_lock.simps)

lemma write_lock_spins:
  "mut m \<Longrightarrow> write_lock m = None"
  using write_lock_held [of m] by (cases "write_lock m") auto

lemma atomic_safe_read_never_returns:
  "n \<le> available s \<Longrightarrow> atomic_safe_read N n s = None"
proof (cases "write_lock (rwlock s)")
  case None
  then show ?thesis by (simp add: atomic_safe_read_def)
next
  case (Some l)
  assume n: "n \<le> available s"
  from write_lock_held [OF Some] have "mut l" by simp
  then have "atomic_temporary_copy N n (s\<lparr>rwlock := l\<rparr>) = None"
    by (simp add: atomic_temporary_copy_def read_lock_def mutex_lock_def)
  then show ?thesis using Some n by (simp add: atomic_safe_read_def)
qed

text \<open>
  With the lock free when the call starts, every other operation of the
  concurrent variant returns, with the value and the buffer fields that the
  single-threaded operation gives and with the mutex free again.
\<close>

lemma truncate_simps:
  "buff (ringbuffer.truncate s) = buff s"
  "readpos (ringbuffer.truncate s) = readpos s"
  "writepos (ringbuffer.truncate s) = writepos s"
  "available (ringbuffer.truncate s) = available s"
  by (simp_all add: ringbuffer.truncate_def)

lemma truncate_updates:
  "ringbuffer.truncate (s\<lparr>available := a\<rparr>) = (ringbuffer.truncate s)\<lparr>available := a\<rparr>"
  "ringbuffer.truncate (s\<lparr>readpos := p\<rparr>) = (ringbuffer.truncate s)\<lparr>readpos := p\<rparr>"
  "ringbuffer.truncate (s\<lparr>writepos := p\<rparr>) = (ringbuffer.truncate s)\<lparr>writepos := p\<rparr>"
  "ringbuffer.truncate (s\<lparr>buff := b\<rparr>) = (ringbuffer.truncate s)\<lparr>buff := b\<rparr>"
  by (simp_all add: ringbuffer.truncate_def)

lemma truncate_rwlock:
  "ringbuffer.truncate (s\<lparr>rwlock := l\<rparr>) = ringbuffer.truncate s"
  by (simp add: ringbuffer.truncate_def)

lemma release_restores:
  "\<not> mut m \<Longrightarrow> write_unlock (m\<lparr>mut := True\<rparr>) = m"
  by (simp add: write_unlock_def mutex_unlock_def)

lemma read_loop_truncate:
  "read_loop N cap (ringbuffer.truncate s) acc
     = (fst (read_loop N cap s acc), ringbuffer.truncate (snd (read_loop N cap s acc)))"
proof (induction N cap s acc rule: read_loop.induct)
  case (1 N cap s result)
  show ?case
  proof (cases "cap < available s")
    case True
    let ?s2 = "s\<lparr>available := available s - 1, readpos := wrapfront N (readpos s) 1\<rparr>"
    let ?acc = "result @ [buff s ! readpos s]"
    have stepS: "read_loop N cap s result = read_loop N cap ?s2 ?acc"
      using True by (subst read_loop.simps) (simp add: Let_def)
    have stepT: "read_loop N cap (ringbuffer.truncate s) result
                   = read_loop N cap (ringbuffer.truncate ?s2) ?acc"
      using True
      by (subst read_loop.simps) (simp add: Let_def truncate_simps truncate_updates)
    from "1" [OF True refl refl refl]
    have "read_loop N cap (ringbuffer.truncate ?s2) ?acc
            = (fst (read_loop N cap ?s2 ?acc), ringbuffer.truncate (snd (read_loop N cap ?s2 ?acc)))"
      by simp
    then show ?thesis by (simp only: stepS stepT)
  next
    case False
    have "read_loop N cap s result = (result, s\<lparr>available := available s - 1\<rparr>)"
      using False by (subst read_loop.simps) simp
    moreover have "read_loop N cap (ringbuffer.truncate s) result
        = (result, (ringbuffer.truncate s)\<lparr>available := available s - 1\<rparr>)"
      using False by (subst read_loop.simps) (simp add: truncate_simps)
    ultimately show ?thesis by (simp add: truncate_updates)
  qed
qed

lemma read_loop_rwlock:
  "rwlock (snd (read_loop N cap s acc)) = rwlock s"
proof (induction N cap s acc rule: read_loop.induct)
  case (1 N cap s result)
  show ?case
  proof (cases "cap < available s")
    case True
    from "1" [OF True refl refl refl] show ?thesis
      using True by (subst read_loop.simps) (simp add: Let_def)
  next
    case False
    then show ?thesis by (subst read_loop.simps) simp
  qed
qed

lemma erase_loop_truncate:
  "erase_loop N m (ringbuffer.truncate s) = ringbuffer.truncate (erase_loop N m s)"
proof (induction N m s rule: erase_loop.induct)
  case (1 N m s)
  show ?case
  proof (cases "m = 0")
    case True
    then show ?thesis
      by (subst erase_loop.simps, subst (2) erase_loop.simps) simp
  next
    case False
    from "1" [OF False refl] show ?thesis
      using False
      by (subst erase_loop.simps, subst (2) erase_loop.simps)
         (simp add: Let_def truncate_simps truncate_updates truncate_rwlock)
  qed
qed

lemma erase_loop_rwlock:
  "rwlock (erase_loop N m s) = rwlock s"
proof (induction N m s rule: erase_loop.induct)
  case (1 N m s)
  show ?case
  proof (cases "m = 0")
    case True
    then show ?thesis by (subst erase_loop.simps) simp
  next
    case False
    from "1" [OF False refl] show ?thesis
      using False by (subst erase_loop.simps) (simp add: Let_def)
  qed
qed

lemma atomic_emplace_agrees:
  assumes "\<not> mut (rwlock s)"
  shows "\<exists>s'. atomic_emplace N x s = Some s'
            \<and> ringbuffer.truncate s' = emplace N x (ringbuffer.truncate s)
            \<and> rwlock s' = rwlock s"
  using assms
  by (simp add: atomic_emplace_def emplace_def write_lock_free Let_def release_restores
        truncate_simps truncate_updates truncate_rwlock)

lemma atomic_pop_agrees:
  assumes "\<not> mut (rwlock s)"
  shows "\<exists>s'. atomic_pop N s = Some s'
            \<and> ringbuffer.truncate s' = pop N (ringbuffer.truncate s)
            \<and> rwlock s' = rwlock s"
  using assms
  by (simp add: atomic_pop_def pop_def write_lock_free Let_def release_restores
        truncate_simps truncate_updates truncate_rwlock)

lemma atomic_read_agrees:
  assumes "\<not> mut (rwlock s)"
  shows "\<exists>r s'. atomic_read N s = Some (r, s')
            \<and> (r, ringbuffer.truncate s') = read N (ringbuffer.truncate s)
            \<and> rwlock s' = rwlock s"
  using assms
  by (simp add: atomic_read_def read_def write_lock_free Let_def release_restores
        truncate_simps truncate_updates truncate_rwlock)

lemma atomic_front_agrees:
  assumes "\<not> mut (rwlock s)"
  shows "\<exists>r s'. atomic_front s = Some (r, s')
            \<and> (r, ringbuffer.truncate s') = front (ringbuffer.truncate s)
            \<and> \<not> mut (rwlock s')"
  using assms
  by (simp add: atomic_front_def front_def read_lock_def read_unlock_def mutex_lock_def
        mutex_unlock_def Let_def truncate_simps truncate_updates truncate_rwlock)

lemma atomic_read_n_agrees:
  assumes "\<not> mut (rwlock s)"
  shows "\<exists>r s'. atomic_read_n N n s = Some (r, s')
            \<and> (r, ringbuffer.truncate s') = read_n N n (ringbuffer.truncate s)
            \<and> rwlock s' = rwlock s"
proof (cases "n \<le> available s")
  case False
  then show ?thesis using assms
    by (simp add: atomic_read_n_def read_n_def write_lock_free Let_def release_restores
          truncate_simps truncate_updates truncate_rwlock)
next
  case True
  let ?s0 = "s\<lparr>rwlock := (rwlock s)\<lparr>mut := True\<rparr>\<rparr>"
  obtain xs s1 where l: "read_loop N (available s - n) ?s0 [] = (xs, s1)"
    by (cases "read_loop N (available s - n) ?s0 []")
  from read_loop_truncate [of N "available s - n" ?s0 "[]"]
  have t: "read_loop N (available s - n) (ringbuffer.truncate s) [] = (xs, ringbuffer.truncate s1)"
    by (simp add: l truncate_updates truncate_rwlock)
  from read_loop_rwlock [of N "available s - n" ?s0 "[]"]
  have k: "rwlock s1 = (rwlock s)\<lparr>mut := True\<rparr>" by (simp add: l)
  show ?thesis using assms True
    by (simp add: atomic_read_n_def read_n_def write_lock_free Let_def l t k release_restores
          truncate_simps truncate_updates truncate_rwlock)
qed

lemma atomic_erase_agrees:
  assumes "\<not> mut (rwlock s)"
  shows "\<exists>s'. atomic_erase N n s = Some s'
            \<and> ringbuffer.truncate s' = erase N n (ringbuffer.truncate s)
            \<and> rwlock s' = rwlock s"
proof -
  let ?s0 = "s\<lparr>rwlock := (rwlock s)\<lparr>mut := True\<rparr>\<rparr>"
  let ?m = "min n (available s)"
  have t: "erase_loop N ?m (ringbuffer.truncate s) = ringbuffer.truncate (erase_loop N ?m ?s0)"
    using erase_loop_truncate [of N ?m ?s0] by (simp add: truncate_updates truncate_rwlock)
  have k: "rwlock (erase_loop N ?m ?s0) = (rwlock s)\<lparr>mut := True\<rparr>"
    by (simp add: erase_loop_rwlock)
  show ?thesis using assms
    by (simp add: atomic_erase_def erase_def write_lock_free Let_def t k release_restores
          truncate_simps truncate_updates truncate_rwlock)
qed

text \<open>
  C8 at a reachable state. On a freshly constructed concurrent buffer,
  \<open>safe_read(0)\<close> takes the writer guard, which locks the mutex, and then
  \<open>temporary_copy\<close> asks for the reader guard, whose \<open>mut.lock ()\<close> waits for the
  same mutex: the call never returns (lemma \<open>atomic_safe_read_never_returns\<close>:
  so does every \<open>safe_read(n)\<close> with \<open>n \<le> available\<close>).
\<close>

theorem atomic_safe_read_blocks:
  "atomic_safe_read 4 0 (atomic_ringbuffer_init 4 (0 :: nat)) = None"
  by (simp add: atomic_safe_read_def atomic_ringbuffer_init_def write_lock.simps
        atomic_temporary_copy_def read_lock_def mutex_lock_def)

text \<open>
  C9 at a reachable state. After one \<open>emplace\<close> of 7 the two variants hold the
  same buffer fields; \<open>safe_read(1)\<close> then returns \<open>[7]\<close> in the single-threaded
  variant and never returns in the concurrent one.
\<close>

theorem variants_differ_on_safe_read:
  "atomic_emplace 4 (7::nat) (atomic_ringbuffer_init 4 0)
      = Some \<lparr>buff = [7, 0, 0, 0], writepos = 1, readpos = 0, available = 1,
               rwlock = \<lparr>mut = False, readers = 0\<rparr>\<rparr>
   \<and> emplace 4 (7::nat) (ringbuffer_init 4 0)
      = \<lparr>buff = [7, 0, 0, 0], writepos = 1, readpos = 0, available = 1\<rparr>
   \<and> safe_read 4 1 \<lparr>buff = [7::nat, 0, 0, 0], writepos = 1, readpos = 0, available = 1\<rparr>
      = (Inr [7], \<lparr>buff = [7, 0, 0, 0], writepos = 1, readpos = 1, available = 0\<rparr>)
   \<and> atomic_safe_read 4 1 \<lparr>buff = [7::nat, 0, 0, 0], writepos = 1, readpos = 0, available = 1,
               rwlock = \<lparr>mut = False, readers = 0\<rparr>\<rparr> = None"
proof -
  have wl: "write_lock \<lparr>mut = False, readers = 0\<rparr> = Some \<lparr>mut = True, readers = 0\<rparr>"
    by (simp add: write_lock.simps)
  have rep: "replicate 4 (0 :: nat) = [0, 0, 0, 0]" by (simp add: numeral_eq_Suc)
  have "atomic_emplace 4 (7::nat) (atomic_ringbuffer_init 4 0)
      = Some \<lparr>buff = [7, 0, 0, 0], writepos = 1, readpos = 0, available = 1,
               rwlock = \<lparr>mut = False, readers = 0\<rparr>\<rparr>"
    by (simp add: atomic_emplace_def atomic_ringbuffer_init_def wl write_unlock_def
          mutex_unlock_def wrapfront_def first_def last_ptr_def Let_def rep)
  moreover have "emplace 4 (7::nat) (ringbuffer_init 4 0)
      = \<lparr>buff = [7, 0, 0, 0], writepos = 1, readpos = 0, available = 1\<rparr>"
    by code_simp
  moreover have "safe_read 4 1 \<lparr>buff = [7::nat, 0, 0, 0], writepos = 1, readpos = 0, available = 1\<rparr>
      = (Inr [7], \<lparr>buff = [7, 0, 0, 0], writepos = 1, readpos = 1, available = 0\<rparr>)"
    by code_simp
  moreover have "atomic_safe_read 4 1 \<lparr>buff = [7::nat, 0, 0, 0], writepos = 1, readpos = 0, available = 1,
               rwlock = \<lparr>mut = False, readers = 0\<rparr>\<rparr> = None"
    by (simp add: atomic_safe_read_def wl atomic_temporary_copy_def read_lock_def mutex_lock_def)
  ultimately show ?thesis by simp
qed

end
